theory Spec2Isabelle
  imports Main
begin

section \<open>Data model\<close>

text \<open>
  The development follows the linked-list version of the cache, lines 139-319 of
  \<^verbatim>\<open>src/main.go\<close>: the one with the fields \<^verbatim>\<open>head\<close> and \<^verbatim>\<open>tail\<close>, the
  helpers \<^verbatim>\<open>remove\<close>, \<^verbatim>\<open>addToFront\<close>, \<^verbatim>\<open>moveToFront\<close> and the routine
  \<^verbatim>\<open>startEvictionRoutine\<close>. Lines 1-137 hold a second variant of the same
  program, built on \<^verbatim>\<open>container/list\<close> and without a sweep; it is not modelled.

  Entries live on the heap and are reached through pointers, so they are kept in a
  store indexed by addresses; a pointer is an \<open>addr option\<close>, with \<open>None\<close> for
  \<^verbatim>\<open>nil\<close>. Go's \<^verbatim>\<open>int\<close> keys and values are only stored, compared and
  returned, never computed with, so they are modelled as \<open>int\<close>. A \<^verbatim>\<open>time.Time\<close> is
  a reading of the monotonic clock and a \<^verbatim>\<open>time.Duration\<close> a difference of two
  readings, both integers in one unit; \<^verbatim>\<open>time.Since(t)\<close> is the current reading
  minus \<open>t\<close> (the saturation of \<^verbatim>\<open>Duration\<close> at 292 years is left out). Every
  reading of the clock is a parameter of the operation that reads it. The examples
  count in milliseconds.
\<close>

type_synonym addr = nat

record entry =
  key :: int
  val :: int
  timestamp :: int
  prev :: "addr option"
  nxt :: "addr option"

text \<open>
  The struct \<^verbatim>\<open>LRUCache\<close>. Its field \<^verbatim>\<open>cache\<close> is a reference to the map object
  made by \<^verbatim>\<open>make\<close> in the constructor; the contents of that object are in the
  component \<open>cmap\<close> of the world below, so that two copies of the struct share them,
  as two copies of a Go map value do. The mutex is not modelled: every operation runs
  from start to end on the state it is given.
\<close>

record LRUCache =
  capacity :: int
  head :: "addr option"
  tail :: "addr option"
  expiration :: int

text \<open>
  What lies outside the struct: the map object, the entries, the next unused address
  (an \<^verbatim>\<open>&entry{...}\<close> yields a pointer different from every pointer in use),
  and the keys printed by \<^verbatim>\<open>log.Printf\<close> in \<^verbatim>\<open>evict\<close>, oldest first.
\<close>

record world =
  cmap :: "int \<Rightarrow> addr option"
  ents :: "addr \<Rightarrow> entry"
  fresh :: addr
  evlog :: "int list"

datatype error = NilPointerDereference

definition nexts :: "world \<Rightarrow> addr \<Rightarrow> addr option" where
  "nexts w a = nxt (ents w a)"

definition prevs :: "world \<Rightarrow> addr \<Rightarrow> addr option" where
  "prevs w a = prev (ents w a)"

text \<open>Assignments to one field of the entry at an address.\<close>

definition set_prev :: "addr \<Rightarrow> addr option \<Rightarrow> world \<Rightarrow> world" where
  "set_prev a p w = w\<lparr>ents := (ents w)(a := (ents w a)\<lparr>prev := p\<rparr>)\<rparr>"

definition set_nxt :: "addr \<Rightarrow> addr option \<Rightarrow> world \<Rightarrow> world" where
  "set_nxt a p w = w\<lparr>ents := (ents w)(a := (ents w a)\<lparr>nxt := p\<rparr>)\<rparr>"

definition set_val :: "addr \<Rightarrow> int \<Rightarrow> world \<Rightarrow> world" where
  "set_val a v w = w\<lparr>ents := (ents w)(a := (ents w a)\<lparr>val := v\<rparr>)\<rparr>"

definition set_timestamp :: "addr \<Rightarrow> int \<Rightarrow> world \<Rightarrow> world" where
  "set_timestamp a t w = w\<lparr>ents := (ents w)(a := (ents w a)\<lparr>timestamp := t\<rparr>)\<rparr>"

section \<open>The operations\<close>

text \<open>
  \<^verbatim>\<open>remove\<close>, lines 237-248. The second test reads \<^verbatim>\<open>entry.next\<close> and
  \<^verbatim>\<open>entry.prev\<close> after the first assignment, as the source does.
\<close>

definition remove :: "LRUCache \<Rightarrow> world \<Rightarrow> addr \<Rightarrow> LRUCache \<times> world" where
  "remove this w e =
     (let (this1, w1) =
            (case prev (ents w e) of
               Some p \<Rightarrow> (this, set_nxt p (nxt (ents w e)) w)
             | None \<Rightarrow> (this\<lparr>head := nxt (ents w e)\<rparr>, w))
      in case nxt (ents w1 e) of
           Some n \<Rightarrow> (this1, set_prev n (prev (ents w1 e)) w1)
         | None \<Rightarrow> (this1\<lparr>tail := prev (ents w1 e)\<rparr>, w1))"

text \<open>\<^verbatim>\<open>addToFront\<close>, lines 225-235.\<close>

definition addToFront :: "LRUCache \<Rightarrow> world \<Rightarrow> addr \<Rightarrow> LRUCache \<times> world" where
  "addToFront this w e =
     (let w1 = set_prev e None w;
          w2 = set_nxt e (head this) w1;
          w3 = (case head this of Some h \<Rightarrow> set_prev h (Some e) w2 | None \<Rightarrow> w2);
          this1 = this\<lparr>head := Some e\<rparr>;
          this2 = (if tail this1 = None then this1\<lparr>tail := Some e\<rparr> else this1)
      in (this2, w3))"

text \<open>\<^verbatim>\<open>moveToFront\<close>, lines 220-223.\<close>

definition moveToFront :: "LRUCache \<Rightarrow> world \<Rightarrow> addr \<Rightarrow> LRUCache \<times> world" where
  "moveToFront this w e = (let (this1, w1) = remove this w e in addToFront this1 w1 e)"

text \<open>\<^verbatim>\<open>evict\<close>, lines 212-218.\<close>

definition evict :: "LRUCache \<Rightarrow> world \<Rightarrow> int \<Rightarrow> LRUCache \<times> world" where
  "evict this w k =
     (case cmap w k of
        Some e \<Rightarrow>
          (let w1 = w\<lparr>cmap := (cmap w)(k := None)\<rparr>;
               (this1, w2) = remove this w1 e
           in (this1, w2\<lparr>evlog := evlog w2 @ [k]\<rparr>))
      | None \<Rightarrow> (this, w))"

text \<open>
  \<^verbatim>\<open>Get\<close>, lines 176-191. The clock is read twice: \<open>now1\<close> by \<^verbatim>\<open>time.Now()\<close> on
  line 182 and \<open>now2\<close> inside \<^verbatim>\<open>time.Since\<close> on line 183. The result is the
  returned integer, the struct and the world after the call.
\<close>

definition Get :: "LRUCache \<Rightarrow> world \<Rightarrow> int \<Rightarrow> int \<Rightarrow> int \<Rightarrow> int \<times> LRUCache \<times> world" where
  "Get this w now1 now2 k =
     (case cmap w k of
        Some e \<Rightarrow>
          (let w1 = set_timestamp e now1 w
           in if now2 - timestamp (ents w1 e) > expiration this
              then (let (this1, w2) = evict this w1 k in (- 1, this1, w2))
              else (let (this1, w2) = moveToFront this w1 e
                    in (val (ents w2 e), this1, w2)))
      | None \<Rightarrow> (- 1, this, w))"

text \<open>
  \<^verbatim>\<open>Set\<close>, lines 193-210. \<^verbatim>\<open>len(this.cache)\<close> is the number of keys of the map.
  On line 204 \<^verbatim>\<open>this.tail.key\<close> dereferences \<^verbatim>\<open>this.tail\<close>; when it is
  \<^verbatim>\<open>nil\<close> the call panics, before anything has been changed.
\<close>

definition Set :: "LRUCache \<Rightarrow> world \<Rightarrow> int \<Rightarrow> int \<Rightarrow> int \<Rightarrow> error + LRUCache \<times> world" where
  "Set this w now k v =
     (case cmap w k of
        Some e \<Rightarrow>
          (let w1 = set_val e v w;
               w2 = set_timestamp e now w1
           in Inr (moveToFront this w2 e))
      | None \<Rightarrow>
          (case (if int (card (dom (cmap w))) \<ge> capacity this
                 then (case tail this of
                         None \<Rightarrow> Inl NilPointerDereference
                       | Some t \<Rightarrow> Inr (evict this w (key (ents w t))))
                 else Inr (this, w)) of
             Inl err \<Rightarrow> Inl err
           | Inr (this1, w1) \<Rightarrow>
               (let e = fresh w1;
                    w2 = w1\<lparr>ents := (ents w1)(e := \<lparr>key = k, val = v, timestamp = now,
                                                     prev = None, nxt = None\<rparr>),
                            fresh := Suc e\<rparr>;
                    w3 = w2\<lparr>cmap := (cmap w2)(k \<mapsto> e)\<rparr>
                in Inr (addToFront this1 w3 e))))"

text \<open>
  One pass of the loop body of \<^verbatim>\<open>startEvictionRoutine\<close>, lines 253-259. Go ranges
  over a map in an unspecified order, and an entry deleted before it is reached is
  not produced; the only deletion in the loop is that of the key at hand. The pass
  is therefore a fold over the keys in the order the runtime chose, each paired with
  the clock reading of its \<^verbatim>\<open>time.Since\<close>. A key of the list that is not in the
  map any more is skipped.
\<close>

definition sweepStep :: "int \<times> int \<Rightarrow> LRUCache \<times> world \<Rightarrow> LRUCache \<times> world" where
  "sweepStep kt s =
     (case s of (this, w) \<Rightarrow>
        (case cmap w (fst kt) of
           Some e \<Rightarrow>
             (if snd kt - timestamp (ents w e) > expiration this
              then evict this w (fst kt) else (this, w))
         | None \<Rightarrow> (this, w)))"

definition sweepPass :: "LRUCache \<Rightarrow> world \<Rightarrow> (int \<times> int) list \<Rightarrow> LRUCache \<times> world" where
  "sweepPass this w kts = fold sweepStep kts (this, w)"


text \<open>
  Walking the \<^verbatim>\<open>next\<close> pointers from a pointer, at most \<open>n\<close> nodes: the list of
  addresses met. \<open>order\<close> walks from \<^verbatim>\<open>head\<close> with as many steps as there are
  allocated entries, which reaches the end of every list without a cycle.
\<close>

fun walk :: "(addr \<Rightarrow> addr option) \<Rightarrow> nat \<Rightarrow> addr option \<Rightarrow> addr list" where
  "walk s 0 p = []"
| "walk s (Suc n) None = []"
| "walk s (Suc n) (Some a) = a # walk s n (s a)"

definition order :: "LRUCache \<Rightarrow> world \<Rightarrow> addr list" where
  "order this w = walk (nexts w) (fresh w) (head this)"

definition order_keys :: "LRUCache \<Rightarrow> world \<Rightarrow> int list" where
  "order_keys this w = map (\<lambda>a. key (ents w a)) (order this w)"

section \<open>The constructor and the running program\<close>

text \<open>
  \<^verbatim>\<open>Constructor\<close>, lines 166-174, builds the struct in its local variable
  \<^verbatim>\<open>cache\<close>, starts \<^verbatim>\<open>go cache.startEvictionRoutine()\<close> and ends with
  \<^verbatim>\<open>return cache\<close>. The routine has a pointer receiver (line 250), so the goroutine
  holds the address of the local variable; the result type is \<^verbatim>\<open>LRUCache\<close>, not a
  pointer, so the caller receives a copy of the struct. From then on there are two
  structs: the copy that \<^verbatim>\<open>main\<close> stores on line 311 and hands to the handlers by
  its address on line 313, on which they call \<^verbatim>\<open>Get\<close> and \<^verbatim>\<open>Set\<close> (\<open>engine\<close>),
  and the constructor's variable that the sweep works on (\<open>sweeper\<close>). Both hold the same map reference, and the entries are shared
  through it, but each has its own \<^verbatim>\<open>head\<close> and \<^verbatim>\<open>tail\<close>.
\<close>

record process =
  engine :: LRUCache
  sweeper :: LRUCache
  mem :: world

definition Constructor :: "int \<Rightarrow> int \<Rightarrow> process" where
  "Constructor cap exp =
     (let cache = \<lparr>capacity = cap, head = None, tail = None, expiration = exp\<rparr>
      in \<lparr>engine = cache, sweeper = cache,
          mem = \<lparr>cmap = Map.empty,
                 ents = (\<lambda>_. \<lparr>key = 0, val = 0, timestamp = 0, prev = None, nxt = None\<rparr>),
                 fresh = 0, evlog = []\<rparr>\<rparr>)"

text \<open>
  The events of a run: \<open>CallGet k now1 now2\<close> and \<open>CallSet k v now\<close>, a \<^verbatim>\<open>Get\<close>
  or a \<^verbatim>\<open>Set\<close> issued by a handler on the engine (lines 302 and 287) with the
  clock readings it takes, and \<open>SweepPass kts\<close>, one pass of the sweep on the
  constructor's struct, \<open>kts\<close> being the keys in the order of the iteration with the
  clock reading taken at each. Each struct has its own mutex too, so nothing keeps a
  pass and a handler apart; a run only lets whole operations follow each other. A
  pass that meets no expired key changes nothing (\<open>sweepPass_idle\<close> below), so the
  runs list only the passes that evict: with a pass every 1000 and an expiration of
  5000, the passes left out meet every key at an age of at most 5000. A panic is the
  result of the run, which stops there.
\<close>

datatype call = CallGet int int int | CallSet int int int | SweepPass "(int \<times> int) list"

fun step :: "process \<Rightarrow> call \<Rightarrow> error + process" where
  "step P (CallGet k now1 now2) =
     (case Get (engine P) (mem P) now1 now2 k of
        (r, this1, w1) \<Rightarrow> Inr (P\<lparr>engine := this1, mem := w1\<rparr>))"
| "step P (CallSet k v now) =
     (case Set (engine P) (mem P) now k v of
        Inl err \<Rightarrow> Inl err
      | Inr (this1, w1) \<Rightarrow> Inr (P\<lparr>engine := this1, mem := w1\<rparr>))"
| "step P (SweepPass kts) =
     (case sweepPass (sweeper P) (mem P) kts of
        (this1, w1) \<Rightarrow> Inr (P\<lparr>sweeper := this1, mem := w1\<rparr>))"

fun run :: "process \<Rightarrow> call list \<Rightarrow> error + process" where
  "run P [] = Inr P"
| "run P (c # cs) = (case step P c of Inl err \<Rightarrow> Inl err | Inr P1 \<Rightarrow> run P1 cs)"

section \<open>Sequences of operations on one struct\<close>

text \<open>
  The methods of one \<^verbatim>\<open>LRUCache\<close> value, applied one after the other to the same
  receiver: \<^verbatim>\<open>Get\<close>, \<^verbatim>\<open>Set\<close>, \<^verbatim>\<open>evict\<close> and one pass of the sweep loop.
  A panic ends the sequence.
\<close>

datatype op = OpGet int int int | OpSet int int int | OpEvict int | OpSweep "(int \<times> int) list"

fun apply_op :: "LRUCache \<times> world \<Rightarrow> op \<Rightarrow> error + LRUCache \<times> world" where
  "apply_op (this, w) (OpGet k now1 now2) =
     (case Get this w now1 now2 k of (r, this1, w1) \<Rightarrow> Inr (this1, w1))"
| "apply_op (this, w) (OpSet k v now) = Set this w now k v"
| "apply_op (this, w) (OpEvict k) = Inr (evict this w k)"
| "apply_op (this, w) (OpSweep kts) = Inr (sweepPass this w kts)"

fun exec :: "LRUCache \<times> world \<Rightarrow> op list \<Rightarrow> error + LRUCache \<times> world" where
  "exec s [] = Inr s"
| "exec s (c # cs) = (case apply_op s c of Inl err \<Rightarrow> Inl err | Inr s1 \<Rightarrow> exec s1 cs)"

text \<open>
  A \<^verbatim>\<open>Get\<close> is a hit when it reaches line 187: the key is in the map and the test
  of line 183 fails. \<open>touched\<close> is the key an operation touches, if any: the key of a
  hit \<^verbatim>\<open>Get\<close> or of any \<^verbatim>\<open>Set\<close>; \<open>trace\<close> collects them along a sequence,
  oldest first.
\<close>

definition is_hit :: "LRUCache \<Rightarrow> world \<Rightarrow> int \<Rightarrow> int \<Rightarrow> int \<Rightarrow> bool" where
  "is_hit this w now1 now2 k =
     (case cmap w k of
        Some e \<Rightarrow> \<not> now2 - timestamp (ents (set_timestamp e now1 w) e) > expiration this
      | None \<Rightarrow> False)"

fun touched :: "LRUCache \<times> world \<Rightarrow> op \<Rightarrow> int list" where
  "touched (this, w) (OpGet k now1 now2) = (if is_hit this w now1 now2 k then [k] else [])"
| "touched (this, w) (OpSet k v now) = [k]"
| "touched (this, w) (OpEvict k) = []"
| "touched (this, w) (OpSweep kts) = []"

fun trace :: "LRUCache \<times> world \<Rightarrow> op list \<Rightarrow> int list" where
  "trace s [] = []"
| "trace s (c # cs) =
     touched s c @ (case apply_op s c of Inl err \<Rightarrow> [] | Inr s1 \<Rightarrow> trace s1 cs)"

text \<open>
  The specification's recency order: of a sequence of touched keys, oldest first, the
  distinct keys from the most recently touched to the least recently touched
  (\<open>remdups\<close> keeps the last occurrence of each key).
\<close>

definition recency :: "int list \<Rightarrow> int list" where
  "recency ts = rev (remdups ts)"

section \<open>The invariant of the structure\<close>

text \<open>
  \<open>chain s p as\<close>: following the pointer map \<open>s\<close> from the pointer \<open>p\<close> visits
  exactly the addresses \<open>as\<close> and ends in \<^verbatim>\<open>nil\<close>.
\<close>

fun chain :: "(addr \<Rightarrow> addr option) \<Rightarrow> addr option \<Rightarrow> addr list \<Rightarrow> bool" where
  "chain s p [] = (p = None)"
| "chain s p (a # as) = (p = Some a \<and> chain s (s a) as)"

text \<open>
  \<open>lru_inv this w as\<close>: the entries \<open>as\<close> form the doubly linked list of the struct,
  forwards from \<^verbatim>\<open>head\<close> through \<^verbatim>\<open>next\<close> and backwards from \<^verbatim>\<open>tail\<close> through
  \<^verbatim>\<open>prev\<close>, without repetition; every entry of the list is allocated and is what
  the map holds for its key; and the map has no other key.
\<close>

definition lru_inv :: "LRUCache \<Rightarrow> world \<Rightarrow> addr list \<Rightarrow> bool" where
  "lru_inv this w as \<longleftrightarrow>
     chain (nexts w) (head this) as \<and>
     chain (prevs w) (tail this) (rev as) \<and>
     distinct as \<and>
     list_all (\<lambda>a. a < fresh w \<and> cmap w (key (ents w a)) = Some a) as \<and>
     dom (cmap w) = (\<lambda>a. key (ents w a)) ` set as"

definition wellformed :: "LRUCache \<Rightarrow> world \<Rightarrow> bool" where
  "wellformed this w = lru_inv this w (order this w)"

section \<open>Evaluation and frame lemmas\<close>

lemmas field_defs = set_prev_def set_nxt_def set_val_def set_timestamp_def nexts_def prevs_def

lemmas op_defs = remove_def addToFront_def moveToFront_def evict_def Get_def Set_def
  sweepStep_def sweepPass_def Constructor_def

lemmas eval_defs = op_defs field_defs Let_def order_keys_def order_def

section \<open>Linked chains\<close>

lemma chain_walk: "chain s p as \<Longrightarrow> length as \<le> n \<Longrightarrow> walk s n p = as"
proof (induction as arbitrary: p n)
  case Nil
  then show ?case by (cases n) auto
next
  case (Cons a as)
  then show ?case by (cases n) auto
qed

lemma chain_upd_notin: "u \<notin> set as \<Longrightarrow> chain (s(u := v)) p as = chain s p as"
  by (induction as arbitrary: p) auto

lemma chain_empty_iff: "chain s p as \<Longrightarrow> (as = []) = (p = None)"
  by (cases as) auto

lemma chain_succ:
  "chain s p (xs @ a # ys) \<Longrightarrow> s a = (case ys of [] \<Rightarrow> None | y # _ \<Rightarrow> Some y)"
  by (induction xs arbitrary: p) (auto split: list.splits)

lemma chain_unlink:
  "chain s p (xs @ b # a # ys) \<Longrightarrow> distinct (xs @ b # a # ys) \<Longrightarrow>
   chain (s(b := s a)) p (xs @ b # ys)"
  by (induction xs arbitrary: p) (auto simp: chain_upd_notin)

lemma chain_snoc:
  "chain s p (xs @ [b]) \<Longrightarrow> distinct (xs @ [b]) \<Longrightarrow> a \<notin> set (xs @ [b]) \<Longrightarrow>
   chain (s(a := None, b := Some a)) p (xs @ [b, a])"
  by (induction xs arbitrary: p) auto

lemma chain_cons:
  "chain s p as \<Longrightarrow> a \<notin> set as \<Longrightarrow> chain (s(a := p)) (Some a) (a # as)"
  by (simp add: chain_upd_notin)

section \<open>The list operations keep the invariant\<close>

lemma lru_inv_iff:
  "lru_inv this w as \<longleftrightarrow>
     chain (nexts w) (head this) as \<and>
     chain (prevs w) (tail this) (rev as) \<and>
     distinct as \<and>
     (\<forall>a \<in> set as. a < fresh w \<and> cmap w (key (ents w a)) = Some a) \<and>
     dom (cmap w) = (\<lambda>a. key (ents w a)) ` set as"
  by (simp add: lru_inv_def list_all_iff)

lemma nexts_upd [simp]:
  "nexts (set_nxt a p w) = (nexts w)(a := p)"
  "nexts (set_prev a p w) = nexts w"
  "nexts (set_val a v w) = nexts w"
  "nexts (set_timestamp a t w) = nexts w"
  "nexts (w\<lparr>cmap := m\<rparr>) = nexts w"
  "nexts (w\<lparr>evlog := l\<rparr>) = nexts w"
  by (auto simp: fun_eq_iff field_defs)

lemma prevs_upd [simp]:
  "prevs (set_prev a p w) = (prevs w)(a := p)"
  "prevs (set_nxt a p w) = prevs w"
  "prevs (set_val a v w) = prevs w"
  "prevs (set_timestamp a t w) = prevs w"
  "prevs (w\<lparr>cmap := m\<rparr>) = prevs w"
  "prevs (w\<lparr>evlog := l\<rparr>) = prevs w"
  by (auto simp: fun_eq_iff field_defs)

lemma set_field_frame [simp]:
  "cmap (set_nxt a p w) = cmap w" "fresh (set_nxt a p w) = fresh w" "evlog (set_nxt a p w) = evlog w"
  "cmap (set_prev a p w) = cmap w" "fresh (set_prev a p w) = fresh w" "evlog (set_prev a p w) = evlog w"
  "cmap (set_val a v w) = cmap w" "fresh (set_val a v w) = fresh w" "evlog (set_val a v w) = evlog w"
  "cmap (set_timestamp a t w) = cmap w" "fresh (set_timestamp a t w) = fresh w"
  "evlog (set_timestamp a t w) = evlog w"
  by (simp_all add: field_defs)

lemma set_field_data [simp]:
  "key (ents (set_nxt a p w) b) = key (ents w b)"
  "val (ents (set_nxt a p w) b) = val (ents w b)"
  "timestamp (ents (set_nxt a p w) b) = timestamp (ents w b)"
  "key (ents (set_prev a p w) b) = key (ents w b)"
  "val (ents (set_prev a p w) b) = val (ents w b)"
  "timestamp (ents (set_prev a p w) b) = timestamp (ents w b)"
  "key (ents (set_val a v w) b) = key (ents w b)"
  "val (ents (set_val a v w) b) = (if b = a then v else val (ents w b))"
  "timestamp (ents (set_val a v w) b) = timestamp (ents w b)"
  "key (ents (set_timestamp a t w) b) = key (ents w b)"
  "val (ents (set_timestamp a t w) b) = val (ents w b)"
  "timestamp (ents (set_timestamp a t w) b) = (if b = a then t else timestamp (ents w b))"
  by (simp_all add: field_defs)

lemma remove_eq:
  "remove this w e =
     (let (this1, w1) =
            (case prevs w e of
               Some p \<Rightarrow> (this, set_nxt p (nexts w e) w)
             | None \<Rightarrow> (this\<lparr>head := nexts w e\<rparr>, w))
      in case nexts w1 e of
           Some n \<Rightarrow> (this1, set_prev n (prevs w1 e) w1)
         | None \<Rightarrow> (this1\<lparr>tail := prevs w1 e\<rparr>, w1))"
  unfolding remove_def nexts_def prevs_def by (rule refl)

lemma remove_frame:
  assumes "remove this w e = (this', w')"
  shows "cmap w' = cmap w" "fresh w' = fresh w" "evlog w' = evlog w"
    "capacity this' = capacity this" "expiration this' = expiration this"
    "key (ents w' a) = key (ents w a)" "val (ents w' a) = val (ents w a)"
    "timestamp (ents w' a) = timestamp (ents w a)"
  using assms by (auto simp: remove_eq Let_def split: option.splits prod.splits)

lemma remove_chains:
  assumes n: "chain (nexts w) (head this) (xs @ e # ys)"
    and p: "chain (prevs w) (tail this) (rev (xs @ e # ys))"
    and d: "distinct (xs @ e # ys)"
    and r: "remove this w e = (this', w')"
  shows "chain (nexts w') (head this') (xs @ ys) \<and> chain (prevs w') (tail this') (rev (xs @ ys))"
proof -
  have N: "nexts w e = (case ys of [] \<Rightarrow> None | y # _ \<Rightarrow> Some y)"
    using chain_succ[OF n] .
  have "chain (prevs w) (tail this) (rev ys @ e # rev xs)" using p by simp
  from chain_succ[OF this]
  have P: "prevs w e = (case rev xs of [] \<Rightarrow> None | y # _ \<Rightarrow> Some y)" .
  show ?thesis
  proof (cases xs rule: rev_cases)
    case Nil
    note xs = Nil
    show ?thesis
    proof (cases ys)
      case Nil
      with xs N P r show ?thesis by (auto simp: remove_eq)
    next
      case (Cons c ys')
      have "chain (prevs w) (tail this) (rev ys' @ c # e # [])" using p xs Cons by simp
      moreover have "distinct (rev ys' @ c # e # [])" using d Cons by auto
      ultimately have "chain ((prevs w)(c := prevs w e)) (tail this) (rev ys' @ c # [])"
        by (rule chain_unlink)
      with xs Cons N P r n show ?thesis by (auto simp: remove_eq)
    qed
  next
    case (snoc xs' b)
    note xs = snoc
    have be: "b \<noteq> e" using d xs by auto
    have "chain (nexts w) (head this) (xs' @ b # e # ys)" using n xs by simp
    moreover have "distinct (xs' @ b # e # ys)" using d xs by simp
    ultimately have n': "chain ((nexts w)(b := nexts w e)) (head this) (xs' @ b # ys)"
      by (rule chain_unlink)
    show ?thesis
    proof (cases ys)
      case Nil
      have "chain (prevs w) (prevs w e) (rev xs)" using p Nil by simp
      with xs Nil N P r n' be show ?thesis by (auto simp: remove_eq)
    next
      case (Cons c ys')
      have "chain (prevs w) (tail this) (rev ys' @ c # e # rev xs)" using p Cons by simp
      moreover have "distinct (rev ys' @ c # e # rev xs)" using d Cons by auto
      ultimately have "chain ((prevs w)(c := prevs w e)) (tail this) (rev ys' @ c # rev xs)"
        by (rule chain_unlink)
      with xs Cons N P r n' be show ?thesis by (auto simp: remove_eq)
    qed
  qed
qed


lemma addToFront_eq:
  "addToFront this w e =
     (this\<lparr>head := Some e, tail := (if tail this = None then Some e else tail this)\<rparr>,
      (case head this of
         Some h \<Rightarrow> set_prev h (Some e) (set_nxt e (head this) (set_prev e None w))
       | None \<Rightarrow> set_nxt e (head this) (set_prev e None w)))"
  by (simp add: addToFront_def Let_def)

lemma addToFront_frame:
  assumes "addToFront this w e = (this', w')"
  shows "cmap w' = cmap w" "fresh w' = fresh w" "evlog w' = evlog w"
    "capacity this' = capacity this" "expiration this' = expiration this"
    "key (ents w' a) = key (ents w a)" "val (ents w' a) = val (ents w a)"
    "timestamp (ents w' a) = timestamp (ents w a)"
  using assms by (auto simp: addToFront_eq split: option.splits)

lemma addToFront_chains:
  assumes n: "chain (nexts w) (head this) as"
    and p: "chain (prevs w) (tail this) (rev as)"
    and d: "distinct as" and e: "e \<notin> set as"
    and r: "addToFront this w e = (this', w')"
  shows "chain (nexts w') (head this') (e # as) \<and> chain (prevs w') (tail this') (rev (e # as))"
proof (cases as)
  case Nil
  with n p have "head this = None" "tail this = None" by auto
  with Nil r show ?thesis by (auto simp: addToFront_eq)
next
  case (Cons h as')
  with n have h: "head this = Some h" by simp
  have t: "tail this \<noteq> None" using p Cons chain_empty_iff[of "prevs w" "tail this" "rev as"] by auto
  have n': "chain ((nexts w)(e := Some h)) (Some e) (e # as)"
    using chain_cons[OF n e] h by simp
  have "chain (prevs w) (tail this) (rev as' @ [h])" using p Cons by simp
  moreover have "distinct (rev as' @ [h])" using d Cons by auto
  moreover have "e \<notin> set (rev as' @ [h])" using e Cons by auto
  ultimately have "chain ((prevs w)(e := None, h := Some e)) (tail this) (rev as' @ [h, e])"
    by (rule chain_snoc)
  with n' h t r Cons show ?thesis by (auto simp: addToFront_eq)
qed

lemma lru_inv_order:
  assumes "lru_inv this w as"
  shows "order this w = as"
proof -
  from assms have c: "chain (nexts w) (head this) as" and d: "distinct as"
    and b: "\<forall>a\<in>set as. a < fresh w" by (auto simp: lru_inv_iff)
  have "set as \<subseteq> {..<fresh w}" using b by auto
  then have "card (set as) \<le> card {..<fresh w}" by (intro card_mono) auto
  with d have "length as \<le> fresh w" by (simp add: distinct_card)
  with c show ?thesis by (simp add: order_def chain_walk)
qed

lemma wellformed_iff: "wellformed this w \<longleftrightarrow> (\<exists>as. lru_inv this w as)"
  using lru_inv_order by (auto simp: wellformed_def)

lemma lru_inv_card:
  assumes "lru_inv this w as"
  shows "card (dom (cmap w)) = length as"
proof -
  from assms have d: "distinct as"
    and m: "\<forall>a\<in>set as. cmap w (key (ents w a)) = Some a"
    and dm: "dom (cmap w) = (\<lambda>a. key (ents w a)) ` set as" by (auto simp: lru_inv_iff)
  have "inj_on (\<lambda>a. key (ents w a)) (set as)"
  proof (rule inj_onI)
    fix a b assume "a \<in> set as" "b \<in> set as" "key (ents w a) = key (ents w b)"
    with m have "Some a = Some b" by metis
    then show "a = b" by simp
  qed
  then have "card ((\<lambda>a. key (ents w a)) ` set as) = card (set as)" by (rule card_image)
  with d dm show ?thesis by (simp add: distinct_card)
qed

lemma lru_inv_lookup:
  assumes "lru_inv this w as" "cmap w k = Some e"
  shows "e \<in> set as \<and> key (ents w e) = k"
proof -
  from assms have m: "\<forall>a\<in>set as. cmap w (key (ents w a)) = Some a"
    and dm: "dom (cmap w) = (\<lambda>a. key (ents w a)) ` set as" by (auto simp: lru_inv_iff)
  from assms(2) have "k \<in> dom (cmap w)" by auto
  with dm obtain a where a: "a \<in> set as" "key (ents w a) = k" by auto
  with m assms(2) have "a = e" by auto
  with a show ?thesis by simp
qed

lemma lru_inv_tail:
  assumes "lru_inv this w as"
  shows "tail this = (if as = [] then None else Some (last as))"
proof -
  from assms have p: "chain (prevs w) (tail this) (rev as)" by (simp add: lru_inv_iff)
  show ?thesis
  proof (cases as rule: rev_cases)
    case Nil with p show ?thesis by simp
  next
    case (snoc xs x) with p show ?thesis by simp
  qed
qed

lemma lru_inv_head:
  assumes "lru_inv this w as"
  shows "head this = (if as = [] then None else Some (hd as))"
  using assms by (cases as) (auto simp: lru_inv_iff)


lemma lru_inv_set_data [simp]:
  "lru_inv this (set_val e v w) as = lru_inv this w as"
  "lru_inv this (set_timestamp e t w) as = lru_inv this w as"
  by (simp_all add: lru_inv_iff)

lemma evict_absent: "cmap w k = None \<Longrightarrow> evict this w k = (this, w)"
  by (simp add: evict_def)

lemma evict_frame:
  assumes "evict this w k = (this', w')"
  shows "cmap w' = (cmap w)(k := None)" "fresh w' = fresh w"
    "capacity this' = capacity this" "expiration this' = expiration this"
    "key (ents w' a) = key (ents w a)" "val (ents w' a) = val (ents w a)"
    "timestamp (ents w' a) = timestamp (ents w a)"
    "evlog w' = (if cmap w k = None then evlog w else evlog w @ [k])"
proof -
  show "cmap w' = (cmap w)(k := None)" "fresh w' = fresh w"
    "capacity this' = capacity this" "expiration this' = expiration this"
    "key (ents w' a) = key (ents w a)" "val (ents w' a) = val (ents w a)"
    "timestamp (ents w' a) = timestamp (ents w a)"
    "evlog w' = (if cmap w k = None then evlog w else evlog w @ [k])"
    using assms
    by (auto simp: evict_def Let_def fun_eq_iff split: option.splits prod.splits
        dest: remove_frame)
qed

lemma evict_inv:
  assumes inv: "lru_inv this w as" and k: "cmap w k = Some e"
    and ev: "evict this w k = (this', w')"
  shows "lru_inv this' w' (remove1 e as)"
proof -
  from lru_inv_lookup[OF inv k] have e: "e \<in> set as" and ke: "key (ents w e) = k" by auto
  from inv have n: "chain (nexts w) (head this) as"
    and p: "chain (prevs w) (tail this) (rev as)" and d: "distinct as"
    and b: "\<forall>a\<in>set as. a < fresh w"
    and m: "\<forall>a\<in>set as. cmap w (key (ents w a)) = Some a"
    and dm: "dom (cmap w) = (\<lambda>a. key (ents w a)) ` set as" by (auto simp: lru_inv_iff)
  from e obtain xs ys where as: "as = xs @ e # ys" by (auto dest: split_list)
  with d have r1: "remove1 e as = xs @ ys" by (simp add: remove1_append)
  define w1 where "w1 = w\<lparr>cmap := (cmap w)(k := None)\<rparr>"
  obtain this2 w2 where rm: "remove this w1 e = (this2, w2)" by (cases "remove this w1 e")
  with ev k have res: "this' = this2" "w' = w2\<lparr>evlog := evlog w2 @ [k]\<rparr>"
    by (auto simp: evict_def w1_def Let_def)
  have "chain (nexts w1) (head this) (xs @ e # ys)" "chain (prevs w1) (tail this) (rev (xs @ e # ys))"
    using n p as by (simp_all add: w1_def)
  from remove_chains[OF this _ rm] d as
  have ch: "chain (nexts w2) (head this2) (xs @ ys)" "chain (prevs w2) (tail this2) (rev (xs @ ys))"
    by auto
  have fr: "cmap w' = (cmap w)(k := None)" "fresh w' = fresh w"
    "\<And>a. key (ents w' a) = key (ents w a)"
    using evict_frame[OF ev] by auto
  have keys: "\<And>a. a \<in> set (xs @ ys) \<Longrightarrow> key (ents w a) \<noteq> k"
  proof
    fix a assume a: "a \<in> set (xs @ ys)" "key (ents w a) = k"
    then have "a \<in> set as" using as by auto
    with m a k have "a = e" by auto
    with a d as show False by auto
  qed
  have "dom (cmap w') = (\<lambda>a. key (ents w' a)) ` set (xs @ ys)"
  proof -
    have "dom (cmap w') = dom (cmap w) - {k}" using fr by auto
    also have "\<dots> = (\<lambda>a. key (ents w a)) ` set as - {k}" using dm by simp
    also have "\<dots> = (\<lambda>a. key (ents w a)) ` set (xs @ ys)"
      using as ke keys by auto
    finally show ?thesis using fr by simp
  qed
  moreover have "\<forall>a\<in>set (xs @ ys). a < fresh w' \<and> cmap w' (key (ents w' a)) = Some a"
    using b m keys as fr by auto
  ultimately show ?thesis
    using ch d as r1 res by (simp add: lru_inv_iff)
qed

lemma moveToFront_frame:
  assumes "moveToFront this w e = (this', w')"
  shows "cmap w' = cmap w" "fresh w' = fresh w" "evlog w' = evlog w"
    "capacity this' = capacity this" "expiration this' = expiration this"
    "key (ents w' a) = key (ents w a)" "val (ents w' a) = val (ents w a)"
    "timestamp (ents w' a) = timestamp (ents w a)"
proof -
  obtain this1 w1 where rm: "remove this w e = (this1, w1)" by (cases "remove this w e")
  with assms have ad: "addToFront this1 w1 e = (this', w')" by (simp add: moveToFront_def)
  show "cmap w' = cmap w" "fresh w' = fresh w" "evlog w' = evlog w"
    "capacity this' = capacity this" "expiration this' = expiration this"
    "key (ents w' a) = key (ents w a)" "val (ents w' a) = val (ents w a)"
    "timestamp (ents w' a) = timestamp (ents w a)"
    using remove_frame[OF rm] addToFront_frame[OF ad] by simp_all
qed

lemma moveToFront_inv:
  assumes inv: "lru_inv this w as" and e: "e \<in> set as"
    and mv: "moveToFront this w e = (this', w')"
  shows "lru_inv this' w' (e # remove1 e as)"
proof -
  from inv have n: "chain (nexts w) (head this) as"
    and p: "chain (prevs w) (tail this) (rev as)" and d: "distinct as"
    and b: "\<forall>a\<in>set as. a < fresh w"
    and m: "\<forall>a\<in>set as. cmap w (key (ents w a)) = Some a"
    and dm: "dom (cmap w) = (\<lambda>a. key (ents w a)) ` set as" by (auto simp: lru_inv_iff)
  from e obtain xs ys where as: "as = xs @ e # ys" by (auto dest: split_list)
  with d have r1: "remove1 e as = xs @ ys" by (simp add: remove1_append)
  obtain this1 w1 where rm: "remove this w e = (this1, w1)" by (cases "remove this w e")
  with mv have ad: "addToFront this1 w1 e = (this', w')" by (simp add: moveToFront_def)
  from remove_chains[OF _ _ _ rm, of xs ys] n p d as
  have ch1: "chain (nexts w1) (head this1) (xs @ ys)" "chain (prevs w1) (tail this1) (rev (xs @ ys))"
    by auto
  have "distinct (xs @ ys)" "e \<notin> set (xs @ ys)" using d as by auto
  from addToFront_chains[OF ch1 this ad]
  have ch: "chain (nexts w') (head this') (e # xs @ ys)"
    "chain (prevs w') (tail this') (rev (e # xs @ ys))" by auto
  have fr: "cmap w' = cmap w" "fresh w' = fresh w" "\<And>a. key (ents w' a) = key (ents w a)"
    using moveToFront_frame[OF mv] by auto
  have "set (e # xs @ ys) = set as" using as by auto
  with ch d as r1 b m dm fr show ?thesis by (simp add: lru_inv_iff)
qed


lemma insert_new_inv:
  assumes inv: "lru_inv this w as" and k: "cmap w k = None"
    and ad: "addToFront this
               (w\<lparr>ents := (ents w)(fresh w := \<lparr>key = k, val = v, timestamp = now,
                                               prev = None, nxt = None\<rparr>),
                  fresh := Suc (fresh w), cmap := (cmap w)(k \<mapsto> fresh w)\<rparr>)
               (fresh w) = (this', w')"
  shows "lru_inv this' w' (fresh w # as)"
proof -
  define e where "e = fresh w"
  define w3 where "w3 = w\<lparr>ents := (ents w)(e := \<lparr>key = k, val = v, timestamp = now,
                                               prev = None, nxt = None\<rparr>),
                  fresh := Suc e, cmap := (cmap w)(k \<mapsto> e)\<rparr>"
  from inv have n: "chain (nexts w) (head this) as"
    and p: "chain (prevs w) (tail this) (rev as)" and d: "distinct as"
    and b: "\<forall>a\<in>set as. a < fresh w"
    and m: "\<forall>a\<in>set as. cmap w (key (ents w a)) = Some a"
    and dm: "dom (cmap w) = (\<lambda>a. key (ents w a)) ` set as" by (auto simp: lru_inv_iff)
  have e: "e \<notin> set as" using b by (auto simp: e_def)
  have nx: "nexts w3 = (nexts w)(e := None)" and pv: "prevs w3 = (prevs w)(e := None)"
    by (auto simp: w3_def nexts_def prevs_def fun_eq_iff)
  have ch3: "chain (nexts w3) (head this) as" "chain (prevs w3) (tail this) (rev as)"
    using n p e by (simp_all add: nx pv chain_upd_notin)
  have ad3: "addToFront this w3 e = (this', w')" using ad by (simp add: w3_def e_def)
  from addToFront_chains[OF ch3 d e ad3]
  have ch: "chain (nexts w') (head this') (e # as)" "chain (prevs w') (tail this') (rev (e # as))"
    by auto
  have fr: "cmap w' = (cmap w)(k \<mapsto> e)" "fresh w' = Suc e"
    "\<And>a. key (ents w' a) = (if a = e then k else key (ents w a))"
    using addToFront_frame[OF ad3] by (auto simp: w3_def)
  have nk: "\<And>a. a \<in> set as \<Longrightarrow> key (ents w a) \<noteq> k" using m k by force
  have "dom (cmap w') = (\<lambda>a. key (ents w' a)) ` set (e # as)"
  proof -
    have "(\<lambda>a. key (ents w' a)) ` set as = (\<lambda>a. key (ents w a)) ` set as"
      using e fr by (intro image_cong) auto
    then show ?thesis using fr dm by auto
  qed
  moreover have "\<forall>a\<in>set (e # as). a < fresh w' \<and> cmap w' (key (ents w' a)) = Some a"
    using b m nk e fr by (auto simp: e_def)
  ultimately show ?thesis using ch d e by (simp add: lru_inv_iff e_def)
qed

lemma Set_existing:
  assumes inv: "lru_inv this w as" and k: "cmap w k = Some e"
  shows "\<exists>this' w'. Set this w now k v = Inr (this', w') \<and> lru_inv this' w' (e # remove1 e as) \<and>
           cmap w' = cmap w \<and> evlog w' = evlog w \<and> capacity this' = capacity this \<and>
           expiration this' = expiration this \<and> fresh w' = fresh w \<and>
           val (ents w' e) = v \<and> timestamp (ents w' e) = now"
proof -
  define w2 where "w2 = set_timestamp e now (set_val e v w)"
  obtain this' w' where mv: "moveToFront this w2 e = (this', w')" by (cases "moveToFront this w2 e")
  have S: "Set this w now k v = Inr (this', w')" using k mv by (simp add: Set_def w2_def)
  have inv2: "lru_inv this w2 as" using inv by (simp add: w2_def)
  from lru_inv_lookup[OF inv k] have e: "e \<in> set as" by simp
  from moveToFront_inv[OF inv2 e mv] moveToFront_frame[OF mv] S
  show ?thesis by (simp add: w2_def)
qed

lemma Set_new_room:
  assumes inv: "lru_inv this w as" and k: "cmap w k = None"
    and c: "int (card (dom (cmap w))) < capacity this"
  shows "\<exists>this' w'. Set this w now k v = Inr (this', w') \<and> lru_inv this' w' (fresh w # as) \<and>
           cmap w' = (cmap w)(k \<mapsto> fresh w) \<and> evlog w' = evlog w \<and>
           capacity this' = capacity this \<and> expiration this' = expiration this \<and>
           key (ents w' (fresh w)) = k \<and> val (ents w' (fresh w)) = v \<and>
           timestamp (ents w' (fresh w)) = now"
proof -
  define w3 where "w3 = w\<lparr>ents := (ents w)(fresh w := \<lparr>key = k, val = v, timestamp = now,
                                               prev = None, nxt = None\<rparr>),
                  fresh := Suc (fresh w), cmap := (cmap w)(k \<mapsto> fresh w)\<rparr>"
  obtain this' w' where ad: "addToFront this w3 (fresh w) = (this', w')"
    by (cases "addToFront this w3 (fresh w)")
  have S: "Set this w now k v = Inr (this', w')"
    using k c ad by (simp add: Set_def w3_def Let_def)
  from insert_new_inv[OF inv k ad[unfolded w3_def]] addToFront_frame[OF ad] S
  show ?thesis by (simp add: w3_def)
qed

lemma remove1_last: "distinct as \<Longrightarrow> as \<noteq> [] \<Longrightarrow> remove1 (last as) as = butlast as"
  by (cases as rule: rev_cases) (auto simp: remove1_append)

lemma Set_new_full:
  assumes inv: "lru_inv this w as" and k: "cmap w k = None"
    and c: "capacity this \<le> int (card (dom (cmap w)))" and ne: "as \<noteq> []"
  shows "\<exists>this' w'. Set this w now k v = Inr (this', w') \<and>
           lru_inv this' w' (fresh w # butlast as) \<and>
           cmap w' = (cmap w)(key (ents w (last as)) := None, k \<mapsto> fresh w) \<and>
           evlog w' = evlog w @ [key (ents w (last as))] \<and>
           capacity this' = capacity this \<and> expiration this' = expiration this \<and>
           key (ents w' (fresh w)) = k \<and> val (ents w' (fresh w)) = v \<and>
           timestamp (ents w' (fresh w)) = now"
proof -
  define t where "t = last as"
  define kt where "kt = key (ents w t)"
  have tl: "tail this = Some t" using lru_inv_tail[OF inv] ne by (simp add: t_def)
  have tin: "t \<in> set as" using ne by (simp add: t_def)
  from inv have d: "distinct as"
    and m: "\<forall>a\<in>set as. cmap w (key (ents w a)) = Some a" by (auto simp: lru_inv_iff)
  have kt: "cmap w kt = Some t" using m tin by (simp add: kt_def)
  have ktk: "kt \<noteq> k" using kt k by auto
  obtain this1 w1 where ev: "evict this w kt = (this1, w1)" by (cases "evict this w kt")
  have r1: "remove1 t as = butlast as"
    using d ne by (simp add: t_def remove1_last)
  from evict_inv[OF inv kt ev] have inv1: "lru_inv this1 w1 (butlast as)" by (simp add: r1)
  note fr1 = evict_frame[OF ev]
  have k1: "cmap w1 k = None" using fr1 k by simp
  define w3 where "w3 = w1\<lparr>ents := (ents w1)(fresh w1 := \<lparr>key = k, val = v, timestamp = now,
                                               prev = None, nxt = None\<rparr>),
                  fresh := Suc (fresh w1), cmap := (cmap w1)(k \<mapsto> fresh w1)\<rparr>"
  obtain this' w' where ad: "addToFront this1 w3 (fresh w1) = (this', w')"
    by (cases "addToFront this1 w3 (fresh w1)")
  have S: "Set this w now k v = Inr (this', w')"
    using k c tl ev ad by (simp add: Set_def w3_def Let_def kt_def)
  from insert_new_inv[OF inv1 k1 ad[unfolded w3_def]] addToFront_frame[OF ad] S fr1 kt
  show ?thesis by (simp add: w3_def kt_def t_def)
qed

lemma Set_nil_tail:
  assumes "cmap w k = None" "capacity this \<le> int (card (dom (cmap w)))" "tail this = None"
  shows "Set this w now k v = Inl NilPointerDereference"
  using assms by (simp add: Set_def)

lemma map_remove1_inj:
  assumes "e \<in> set as" "distinct (map f as)"
  shows "map f (remove1 e as) = removeAll (f e) (map f as)"
  using assms by (induction as) (auto simp: image_iff)

lemma lru_inv_keys:
  assumes "lru_inv this w as"
  shows "order_keys this w = map (\<lambda>a. key (ents w a)) as"
    and "distinct (order_keys this w)"
    and "dom (cmap w) = set (order_keys this w)"
proof -
  show o: "order_keys this w = map (\<lambda>a. key (ents w a)) as"
    using lru_inv_order[OF assms] by (simp add: order_keys_def)
  from assms have d: "distinct as"
    and m: "\<forall>a\<in>set as. cmap w (key (ents w a)) = Some a"
    and dm: "dom (cmap w) = (\<lambda>a. key (ents w a)) ` set as" by (auto simp: lru_inv_iff)
  have "inj_on (\<lambda>a. key (ents w a)) (set as)"
  proof (rule inj_onI)
    fix a b assume "a \<in> set as" "b \<in> set as" "key (ents w a) = key (ents w b)"
    with m have "Some a = Some b" by metis
    then show "a = b" by simp
  qed
  with d show "distinct (order_keys this w)" by (simp add: o distinct_map)
  show "dom (cmap w) = set (order_keys this w)" using dm by (simp add: o)
qed

lemma evict_view:
  assumes wf: "wellformed this w" and ev: "evict this w k = (this', w')"
  shows "wellformed this' w' \<and> order_keys this' w' = removeAll k (order_keys this w)"
proof -
  from wf obtain as where inv: "lru_inv this w as" by (auto simp: wellformed_iff)
  note K = lru_inv_keys[OF inv]
  show ?thesis
  proof (cases "cmap w k")
    case None
    then have "k \<notin> set (order_keys this w)" using K(3) by auto
    with None ev wf show ?thesis by (auto simp: evict_absent)
  next
    case (Some e)
    from evict_inv[OF inv Some ev] have inv': "lru_inv this' w' (remove1 e as)" .
    then have wf': "wellformed this' w'" by (auto simp: wellformed_iff)
    from lru_inv_lookup[OF inv Some] have e: "e \<in> set as" "key (ents w e) = k" by auto
    have "order_keys this' w' = map (\<lambda>a. key (ents w' a)) (remove1 e as)"
      using lru_inv_keys(1)[OF inv'] .
    also have "\<dots> = map (\<lambda>a. key (ents w a)) (remove1 e as)"
      using evict_frame(5)[OF ev] by simp
    also have "\<dots> = removeAll k (map (\<lambda>a. key (ents w a)) as)"
      using map_remove1_inj[OF e(1), of "\<lambda>a. key (ents w a)"] K(1,2) e(2) by simp
    finally have "order_keys this' w' = removeAll k (order_keys this w)" using K(1) by simp
    with wf' show ?thesis by simp
  qed
qed

lemma moveToFront_view:
  assumes inv: "lru_inv this w as" and k: "cmap w k = Some e"
    and mv: "moveToFront this w e = (this', w')"
  shows "wellformed this' w' \<and> order_keys this' w' = k # removeAll k (order_keys this w)"
proof -
  note K = lru_inv_keys[OF inv]
  from lru_inv_lookup[OF inv k] have e: "e \<in> set as" "key (ents w e) = k" by auto
  from moveToFront_inv[OF inv e(1) mv] have inv': "lru_inv this' w' (e # remove1 e as)" .
  then have wf': "wellformed this' w'" by (auto simp: wellformed_iff)
  have "order_keys this' w' = map (\<lambda>a. key (ents w' a)) (e # remove1 e as)"
    using lru_inv_keys(1)[OF inv'] .
  also have "\<dots> = map (\<lambda>a. key (ents w a)) (e # remove1 e as)"
    using moveToFront_frame(6)[OF mv] by simp
  also have "\<dots> = k # removeAll k (map (\<lambda>a. key (ents w a)) as)"
    using map_remove1_inj[OF e(1), of "\<lambda>a. key (ents w a)"] K(1,2) e(2) by simp
  finally have "order_keys this' w' = k # removeAll k (order_keys this w)" using K(1) by simp
  with wf' show ?thesis by simp
qed

section \<open>What each operation does to the list of keys\<close>

lemma Get_absent: "cmap w k = None \<Longrightarrow> Get this w now1 now2 k = (- 1, this, w)"
  by (simp add: Get_def)

lemma Get_frame:
  assumes "Get this w now1 now2 k = (r, this', w')"
  shows "capacity this' = capacity this" "expiration this' = expiration this"
  using assms
  by (auto simp: Get_def Let_def split: option.splits prod.splits if_splits
      dest: evict_frame moveToFront_frame)

lemma Get_view:
  assumes wf: "wellformed this w" and g: "Get this w now1 now2 k = (r, this', w')"
  shows "wellformed this' w' \<and>
         (if is_hit this w now1 now2 k
          then order_keys this' w' = k # removeAll k (order_keys this w) \<and>
               k \<in> set (order_keys this w)
          else order_keys this' w' = removeAll k (order_keys this w) \<and> r = - 1)"
proof (cases "cmap w k")
  case None
  from wf obtain as where inv: "lru_inv this w as" by (auto simp: wellformed_iff)
  from None have "k \<notin> set (order_keys this w)" using lru_inv_keys(3)[OF inv] by auto
  with None g wf show ?thesis by (auto simp: Get_absent is_hit_def)
next
  case (Some e)
  from wf obtain as where inv: "lru_inv this w as" by (auto simp: wellformed_iff)
  define w1 where "w1 = set_timestamp e now1 w"
  have inv1: "lru_inv this w1 as" using inv by (simp add: w1_def)
  have wf1: "wellformed this w1" using inv1 by (auto simp: wellformed_iff)
  have k1: "cmap w1 k = Some e" using Some by (simp add: w1_def)
  have ok1: "order_keys this w1 = order_keys this w"
    using lru_inv_keys(1)[OF inv] lru_inv_keys(1)[OF inv1] by (simp add: w1_def)
  have kin: "k \<in> set (order_keys this w)" using lru_inv_keys(3)[OF inv] Some by auto
  show ?thesis
  proof (cases "now2 - now1 > expiration this")
    case True
    then have nh: "\<not> is_hit this w now1 now2 k" using Some by (simp add: is_hit_def)
    obtain t2 w2 where ev: "evict this w1 k = (t2, w2)" by (cases "evict this w1 k")
    with g Some True have "r = - 1" "this' = t2" "w' = w2"
      by (auto simp: Get_def w1_def)
    with evict_view[OF wf1 ev] nh ok1 show ?thesis by simp
  next
    case False
    then have h: "is_hit this w now1 now2 k" using Some by (simp add: is_hit_def)
    obtain t2 w2 where mv: "moveToFront this w1 e = (t2, w2)" by (cases "moveToFront this w1 e")
    with g Some False have "this' = t2" "w' = w2"
      by (auto simp: Get_def w1_def)
    with moveToFront_view[OF inv1 k1 mv] h ok1 kin show ?thesis by simp
  qed
qed

lemma Set_view:
  assumes wf: "wellformed this w" and s: "Set this w now k v = Inr (this', w')"
  shows "wellformed this' w' \<and> capacity this' = capacity this \<and>
         expiration this' = expiration this \<and>
         (order_keys this' w' = k # removeAll k (order_keys this w) \<and>
            (k \<in> set (order_keys this w) \<or>
             int (length (order_keys this w)) < capacity this) \<or>
          k \<notin> set (order_keys this w) \<and>
            capacity this \<le> int (length (order_keys this w)) \<and>
            order_keys this w \<noteq> [] \<and>
            order_keys this' w' = k # butlast (order_keys this w))"
proof -
  from wf obtain as where inv: "lru_inv this w as" by (auto simp: wellformed_iff)
  note K = lru_inv_keys[OF inv]
  have len: "card (dom (cmap w)) = length (order_keys this w)"
    using lru_inv_card[OF inv] K(1) by simp
  show ?thesis
  proof (cases "cmap w k")
    case (Some e)
    from Set_existing[OF inv Some, of now v] s
    have inv': "lru_inv this' w' (e # remove1 e as)" and fr: "capacity this' = capacity this"
      "expiration this' = expiration this" by auto
    define w2 where "w2 = set_timestamp e now (set_val e v w)"
    have inv2: "lru_inv this w2 as" using inv by (simp add: w2_def)
    have k2: "cmap w2 k = Some e" using Some by (simp add: w2_def)
    have ok2: "order_keys this w2 = order_keys this w"
      using lru_inv_keys(1)[OF inv] lru_inv_keys(1)[OF inv2] by (simp add: w2_def)
    have mv: "moveToFront this w2 e = (this', w')" using s Some by (simp add: Set_def w2_def)
    have kin: "k \<in> set (order_keys this w)" using K(3) Some by auto
    from moveToFront_view[OF inv2 k2 mv] ok2 kin fr show ?thesis by simp
  next
    case None
    then have kn: "k \<notin> set (order_keys this w)" using K(3) by auto
    show ?thesis
    proof (cases "int (card (dom (cmap w))) < capacity this")
      case True
      from Set_new_room[OF inv None True, of now v] s
      have inv': "lru_inv this' w' (fresh w # as)" and fr: "capacity this' = capacity this"
        "expiration this' = expiration this" and m: "cmap w' = (cmap w)(k \<mapsto> fresh w)"
        and kk: "key (ents w' (fresh w)) = k" by auto
      have wf': "wellformed this' w'" using inv' by (auto simp: wellformed_iff)
      have "set (order_keys this' w') = insert k (set (order_keys this w))"
        using lru_inv_keys(3)[OF inv'] K(3) m by auto
      have fw: "fresh w \<notin> set as" using inv by (auto simp: lru_inv_iff)
      have same: "\<And>a. a \<in> set as \<Longrightarrow> key (ents w' a) = key (ents w a)"
      proof -
        fix a assume a: "a \<in> set as"
        from inv a have c: "cmap w (key (ents w a)) = Some a" by (auto simp: lru_inv_iff)
        from inv' a have c': "cmap w' (key (ents w' a)) = Some a" by (auto simp: lru_inv_iff)
        from c' m a fw have "cmap w (key (ents w' a)) = Some a"
          by (auto split: if_splits)
        with lru_inv_lookup[OF inv this] show "key (ents w' a) = key (ents w a)" by simp
      qed
      have "order_keys this' w' = k # map (\<lambda>a. key (ents w' a)) as"
        using lru_inv_keys(1)[OF inv'] kk by simp
      also have "map (\<lambda>a. key (ents w' a)) as = map (\<lambda>a. key (ents w a)) as"
        using same by simp
      finally have "order_keys this' w' = k # order_keys this w" using K(1) by simp
      with wf' fr kn True len show ?thesis by simp
    next
      case False
      then have full: "capacity this \<le> int (card (dom (cmap w)))" by simp
      have ne: "as \<noteq> []"
      proof
        assume "as = []"
        with lru_inv_tail[OF inv] have "tail this = None" by simp
        from Set_nil_tail[OF None full this] s show False by simp
      qed
      from Set_new_full[OF inv None full ne, of now v] s
      have inv': "lru_inv this' w' (fresh w # butlast as)" and fr: "capacity this' = capacity this"
        "expiration this' = expiration this"
        and m: "cmap w' = (cmap w)(key (ents w (last as)) := None, k \<mapsto> fresh w)"
        and kk: "key (ents w' (fresh w)) = k" by auto
      have wf': "wellformed this' w'" using inv' by (auto simp: wellformed_iff)
      have fw: "fresh w \<notin> set as" using inv by (auto simp: lru_inv_iff)
      have same: "\<And>a. a \<in> set (butlast as) \<Longrightarrow> key (ents w' a) = key (ents w a)"
      proof -
        fix a assume a: "a \<in> set (butlast as)"
        then have a': "a \<in> set as" by (rule in_set_butlastD)
        from inv' a have c': "cmap w' (key (ents w' a)) = Some a" by (auto simp: lru_inv_iff)
        from c' m a' fw have "cmap w (key (ents w' a)) = Some a"
          by (auto split: if_splits)
        with lru_inv_lookup[OF inv this] show "key (ents w' a) = key (ents w a)" by simp
      qed
      have "order_keys this' w' = k # map (\<lambda>a. key (ents w' a)) (butlast as)"
        using lru_inv_keys(1)[OF inv'] kk by simp
      also have "map (\<lambda>a. key (ents w' a)) (butlast as) = map (\<lambda>a. key (ents w a)) (butlast as)"
        using same by simp
      finally have "order_keys this' w' = k # butlast (order_keys this w)"
        using K(1) by (simp add: map_butlast)
      moreover have "order_keys this w \<noteq> []" using ne K(1) by simp
      ultimately show ?thesis using wf' fr kn full len by simp
    qed
  qed
qed


lemma filter_id_ex: "\<exists>P. xs = filter P xs"
  by (rule exI[of _ "\<lambda>_. True"]) simp

lemma removeAll_ex: "\<exists>P. removeAll k xs = filter P xs"
  by (rule exI[of _ "\<lambda>y. k \<noteq> y"]) (simp add: removeAll_filter_not_eq)

lemma sweepStep_view:
  assumes wf: "wellformed this w" and st: "sweepStep kt (this, w) = (this', w')"
  shows "wellformed this' w' \<and> capacity this' = capacity this \<and>
         expiration this' = expiration this \<and>
         (\<exists>P. order_keys this' w' = filter P (order_keys this w))"
proof (cases "sweepStep kt (this, w) = (this, w)")
  case True
  with st have "this' = this" "w' = w" by auto
  with wf filter_id_ex[of "order_keys this w"] show ?thesis by simp
next
  case False
  with st have ev: "evict this w (fst kt) = (this', w')"
    by (auto simp: sweepStep_def split: option.splits if_splits)
  from evict_view[OF wf ev] evict_frame(3,4)[OF ev] removeAll_ex[of "fst kt" "order_keys this w"]
  show ?thesis by simp
qed

lemma sweepPass_view:
  assumes wf: "wellformed this w" and sp: "sweepPass this w kts = (this', w')"
  shows "wellformed this' w' \<and> capacity this' = capacity this \<and>
         expiration this' = expiration this \<and>
         (\<exists>P. order_keys this' w' = filter P (order_keys this w))"
  using wf sp
proof (induction kts arbitrary: this w)
  case Nil
  then have "this' = this" "w' = w" by (auto simp: sweepPass_def)
  with Nil filter_id_ex[of "order_keys this w"] show ?case by simp
next
  case (Cons kt kts)
  obtain t1 w1 where st: "sweepStep kt (this, w) = (t1, w1)" by (cases "sweepStep kt (this, w)")
  with Cons.prems have sp1: "sweepPass t1 w1 kts = (this', w')" by (simp add: sweepPass_def)
  from sweepStep_view[OF Cons.prems(1) st] obtain P where
    1: "wellformed t1 w1" "capacity t1 = capacity this" "expiration t1 = expiration this"
    "order_keys t1 w1 = filter P (order_keys this w)" by blast
  from Cons.IH[OF 1(1) sp1] obtain Q where
    2: "wellformed this' w'" "capacity this' = capacity t1" "expiration this' = expiration t1"
    "order_keys this' w' = filter Q (order_keys t1 w1)" by blast
  from 1 2 have "order_keys this' w' = filter (\<lambda>x. P x \<and> Q x) (order_keys this w)"
    by (simp add: conj_commute)
  with 1 2 show ?case by auto
qed

lemma apply_op_view:
  assumes wf: "wellformed this w" and ap: "apply_op (this, w) c = Inr (this', w')"
  shows "wellformed this' w' \<and> capacity this' = capacity this \<and>
         expiration this' = expiration this \<and>
         (case touched (this, w) c of
            [] \<Rightarrow> \<exists>P. order_keys this' w' = filter P (order_keys this w)
          | k # ks \<Rightarrow>
              order_keys this' w' = k # removeAll k (order_keys this w) \<and>
                (k \<in> set (order_keys this w) \<or>
                 int (length (order_keys this w)) < capacity this) \<or>
              k \<notin> set (order_keys this w) \<and>
                capacity this \<le> int (length (order_keys this w)) \<and>
                order_keys this w \<noteq> [] \<and>
                order_keys this' w' = k # butlast (order_keys this w))"
proof (cases c)
  case (OpGet k now1 now2)
  obtain r where g: "Get this w now1 now2 k = (r, this', w')"
    using ap OpGet by (auto split: prod.splits)
  from Get_view[OF wf g] Get_frame[OF g] OpGet show ?thesis
    by (auto simp: removeAll_filter_not_eq)
next
  case (OpSet k v now)
  with ap have s: "Set this w now k v = Inr (this', w')" by simp
  from Set_view[OF wf s] OpSet show ?thesis by simp
next
  case (OpEvict k)
  with ap have ev: "evict this w k = (this', w')" by simp
  from evict_view[OF wf ev] evict_frame(3,4)[OF ev] OpEvict show ?thesis
    by (auto simp: removeAll_filter_not_eq)
next
  case (OpSweep kts)
  with ap have sp: "sweepPass this w kts = (this', w')" by simp
  from sweepPass_view[OF wf sp] OpSweep show ?thesis by simp
qed

lemma wellformed_Constructor:
  "wellformed (engine (Constructor cap ttl)) (mem (Constructor cap ttl))"
  by (simp add: wellformed_def lru_inv_def Constructor_def Let_def order_def)

lemma order_keys_Constructor:
  "order_keys (engine (Constructor cap ttl)) (mem (Constructor cap ttl)) = []"
  by (simp add: order_keys_def Constructor_def Let_def order_def)

lemma wellformed_keys:
  assumes "wellformed this w"
  shows "distinct (order_keys this w)" "dom (cmap w) = set (order_keys this w)"
    "card (dom (cmap w)) = length (order_keys this w)"
proof -
  from assms obtain as where inv: "lru_inv this w as" by (auto simp: wellformed_iff)
  show "distinct (order_keys this w)" "dom (cmap w) = set (order_keys this w)"
    using lru_inv_keys[OF inv] by auto
  show "card (dom (cmap w)) = length (order_keys this w)"
    using lru_inv_card[OF inv] lru_inv_keys(1)[OF inv] by simp
qed


lemma exec_wellformed:
  assumes "wellformed this w" "exec (this, w) ops = Inr (this', w')"
  shows "wellformed this' w' \<and> capacity this' = capacity this \<and>
         expiration this' = expiration this"
  using assms
proof (induction ops arbitrary: this w)
  case Nil
  then show ?case by simp
next
  case (Cons c cs)
  from Cons.prems(2) obtain t1 w1 where ap: "apply_op (this, w) c = Inr (t1, w1)"
    and ex: "exec (t1, w1) cs = Inr (this', w')"
    by (auto split: sum.splits)
  from apply_op_view[OF Cons.prems(1) ap]
  have 1: "wellformed t1 w1" "capacity t1 = capacity this" "expiration t1 = expiration this"
    by auto
  from Cons.IH[OF 1(1) ex] 1 show ?case by simp
qed

lemma apply_op_capacity:
  assumes wf: "wellformed this w" and c: "int (card (dom (cmap w))) \<le> capacity this"
    and ap: "apply_op (this, w) c = Inr (this', w')"
  shows "int (card (dom (cmap w'))) \<le> capacity this'"
proof -
  note v = apply_op_view[OF wf ap]
  then have wf': "wellformed this' w'" and cap: "capacity this' = capacity this" by auto
  note K = wellformed_keys[OF wf] and K' = wellformed_keys[OF wf']
  have len: "int (length (order_keys this w)) \<le> capacity this" using c K(3) by simp
  have "int (length (order_keys this' w')) \<le> capacity this"
  proof (cases "touched (this, w) c")
    case Nil
    with v obtain P where "order_keys this' w' = filter P (order_keys this w)" by auto
    then have "length (order_keys this' w') \<le> length (order_keys this w)" by simp
    with len show ?thesis by linarith
  next
    case (Cons k ks)
    with v consider
      (a) "order_keys this' w' = k # removeAll k (order_keys this w)"
          "k \<in> set (order_keys this w) \<or> int (length (order_keys this w)) < capacity this"
      | (b) "order_keys this w \<noteq> []" "order_keys this' w' = k # butlast (order_keys this w)"
      by auto
    then show ?thesis
    proof cases
      case a
      show ?thesis
      proof (cases "k \<in> set (order_keys this w)")
        case True
        with K(1) have "length (removeAll k (order_keys this w)) = length (order_keys this w) - 1"
          by (simp add: distinct_remove1_removeAll[symmetric] length_remove1)
        moreover from True have "length (order_keys this w) > 0" by (cases "order_keys this w") auto
        ultimately show ?thesis using a(1) len by simp
      next
        case False
        with a show ?thesis by simp
      qed
    next
      case b
      then show ?thesis using len by simp
    qed
  qed
  with K'(3) cap show ?thesis by simp
qed

lemma exec_capacity:
  assumes "wellformed this w" "int (card (dom (cmap w))) \<le> capacity this"
    "exec (this, w) ops = Inr (this', w')"
  shows "int (card (dom (cmap w'))) \<le> capacity this' \<and> capacity this' = capacity this"
  using assms
proof (induction ops arbitrary: this w)
  case Nil
  then show ?case by simp
next
  case (Cons c cs)
  from Cons.prems(3) obtain t1 w1 where ap: "apply_op (this, w) c = Inr (t1, w1)"
    and ex: "exec (t1, w1) cs = Inr (this', w')"
    by (auto split: sum.splits)
  from apply_op_view[OF Cons.prems(1) ap]
  have 1: "wellformed t1 w1" "capacity t1 = capacity this" by auto
  from apply_op_capacity[OF Cons.prems(1,2) ap] have 2: "int (card (dom (cmap w1))) \<le> capacity t1" .
  from Cons.IH[OF 1(1) 2 ex] 1 show ?case by simp
qed

lemma remdups_snoc: "remdups (ts @ [k]) = filter (\<lambda>x. x \<noteq> k) (remdups ts) @ [k]"
  by (induction ts) auto

lemma recency_snoc: "recency (ts @ [k]) = k # removeAll k (recency ts)"
proof -
  have "removeAll k (rev (remdups ts)) = rev (filter (\<lambda>x. x \<noteq> k) (remdups ts))"
    by (induction "remdups ts" arbitrary: ts) (auto simp: rev_filter removeAll_filter_not_eq intro: filter_cong)
  then show ?thesis by (simp add: recency_def remdups_snoc)
qed

lemma filter_removeAll: "filter Q (removeAll k xs) = removeAll k (filter Q xs)"
  by (induction xs) auto

lemma recency_step_filter:
  assumes "K = filter (\<lambda>x. x \<in> set K) R" "K' = filter P K"
  shows "K' = filter (\<lambda>x. x \<in> set K') R"
proof -
  have "filter (\<lambda>x. x \<in> set K') R = filter (\<lambda>x. x \<in> set K \<and> P x) R"
    using assms(2) by (intro filter_cong) auto
  also have "\<dots> = filter P (filter (\<lambda>x. x \<in> set K) R)" by (simp add: conj_commute)
  finally show ?thesis using assms by simp
qed

lemma recency_step_touch:
  assumes "K = filter (\<lambda>x. x \<in> set K) R" "K' = k # removeAll k K"
  shows "K' = filter (\<lambda>x. x \<in> set K') (k # removeAll k R)"
proof -
  have "filter (\<lambda>x. x \<in> set K') (removeAll k R) = filter (\<lambda>x. x \<in> set K) (removeAll k R)"
    using assms(2) by (intro filter_cong) auto
  also have "\<dots> = removeAll k (filter (\<lambda>x. x \<in> set K) R)" by (rule filter_removeAll)
  finally show ?thesis using assms by simp
qed

lemma filter_butlast_distinct:
  "distinct K \<Longrightarrow> filter (\<lambda>x. x \<in> set (butlast K)) K = butlast K"
proof (cases K rule: rev_cases)
  case Nil
  then show ?thesis by simp
next
  case (snoc xs x)
  assume "distinct K"
  with snoc have "x \<notin> set xs" by simp
  moreover have "filter (\<lambda>x. x \<in> set xs) xs = xs" by simp
  ultimately show ?thesis using snoc by simp
qed

lemma recency_step_full:
  assumes "K = filter (\<lambda>x. x \<in> set K) R" "distinct K" "k \<notin> set K" "K' = k # butlast K"
  shows "K' = filter (\<lambda>x. x \<in> set K') (k # removeAll k R)"
proof -
  have sub: "set (butlast K) \<subseteq> set K" by (auto dest: in_set_butlastD)
  have "filter (\<lambda>x. x \<in> set K') (removeAll k R) = filter (\<lambda>x. x \<in> set (butlast K)) (removeAll k R)"
    using assms(4) by (intro filter_cong) auto
  also have "\<dots> = removeAll k (filter (\<lambda>x. x \<in> set (butlast K)) R)" by (rule filter_removeAll)
  also have "filter (\<lambda>x. x \<in> set (butlast K)) R =
             filter (\<lambda>x. x \<in> set (butlast K)) (filter (\<lambda>x. x \<in> set K) R)"
    using sub by (auto intro: filter_cong)
  also have "\<dots> = butlast K" using assms(1,2) filter_butlast_distinct by simp
  also have "removeAll k (butlast K) = butlast K"
  proof -
    have "k \<notin> set (butlast K)" using assms(3) sub by auto
    then show ?thesis by (rule removeAll_id)
  qed
  finally show ?thesis using assms by simp
qed

lemma apply_op_recency:
  assumes wf: "wellformed this w"
    and r: "order_keys this w = filter (\<lambda>x. x \<in> set (order_keys this w)) (recency T)"
    and ap: "apply_op (this, w) c = Inr (this', w')"
  shows "order_keys this' w' =
           filter (\<lambda>x. x \<in> set (order_keys this' w')) (recency (T @ touched (this, w) c))"
proof -
  note v = apply_op_view[OF wf ap]
  note K = wellformed_keys[OF wf]
  show ?thesis
  proof (cases "touched (this, w) c")
    case Nil
    with v obtain P where "order_keys this' w' = filter P (order_keys this w)" by auto
    from recency_step_filter[OF r this] Nil show ?thesis by simp
  next
    case (Cons k ks)
    have ks: "ks = []" using Cons by (cases c) (auto split: if_splits)
    from Cons v consider
      (a) "order_keys this' w' = k # removeAll k (order_keys this w)"
      | (b) "k \<notin> set (order_keys this w)" "order_keys this' w' = k # butlast (order_keys this w)"
      by auto
    then show ?thesis
    proof cases
      case a
      from recency_step_touch[OF r a] Cons ks show ?thesis by (simp add: recency_snoc)
    next
      case b
      from recency_step_full[OF r K(1) b] Cons ks show ?thesis by (simp add: recency_snoc)
    qed
  qed
qed

lemma exec_recency:
  assumes "wellformed this w"
    "order_keys this w = filter (\<lambda>x. x \<in> set (order_keys this w)) (recency T)"
    "exec (this, w) ops = Inr (this', w')"
  shows "order_keys this' w' =
           filter (\<lambda>x. x \<in> set (order_keys this' w')) (recency (T @ trace (this, w) ops))"
  using assms
proof (induction ops arbitrary: this w T)
  case Nil
  then show ?case by simp
next
  case (Cons c cs)
  from Cons.prems(3) obtain t1 w1 where ap: "apply_op (this, w) c = Inr (t1, w1)"
    and ex: "exec (t1, w1) cs = Inr (this', w')"
    by (auto split: sum.splits)
  from apply_op_view[OF Cons.prems(1) ap] have 1: "wellformed t1 w1" by auto
  note 2 = apply_op_recency[OF Cons.prems(1,2) ap]
  from Cons.IH[OF 1 2 ex] ap show ?case by simp
qed

lemma wellformed_bij:
  assumes "wellformed this w"
  shows "bij_betw (\<lambda>k. the (cmap w k)) (dom (cmap w)) (set (order this w))"
    and "distinct (order this w)"
    and "\<forall>a\<in>set (order this w). cmap w (key (ents w a)) = Some a"
    and "card (dom (cmap w)) = length (order this w)"
proof -
  from assms obtain as where inv: "lru_inv this w as" by (auto simp: wellformed_iff)
  note o = lru_inv_order[OF inv]
  from inv have d: "distinct as"
    and m: "\<forall>a\<in>set as. cmap w (key (ents w a)) = Some a" by (auto simp: lru_inv_iff)
  show "distinct (order this w)" using d o by simp
  show "\<forall>a\<in>set (order this w). cmap w (key (ents w a)) = Some a" using m o by simp
  show "card (dom (cmap w)) = length (order this w)" using lru_inv_card[OF inv] o by simp
  have "bij_betw (\<lambda>k. the (cmap w k)) (dom (cmap w)) (set as)"
  proof (rule bij_betwI')
    fix k k' assume "k \<in> dom (cmap w)" "k' \<in> dom (cmap w)"
    then obtain a a' where a: "cmap w k = Some a" "cmap w k' = Some a'" by auto
    have ka: "key (ents w a) = k" and ka': "key (ents w a') = k'"
      using lru_inv_lookup[OF inv a(1)] lru_inv_lookup[OF inv a(2)] by blast+
    have "(a = a') = (k = k')"
    proof
      assume "a = a'" then show "k = k'" using ka ka' by blast
    next
      assume "k = k'" then show "a = a'" using a by simp
    qed
    then show "(the (cmap w k) = the (cmap w k')) = (k = k')" by (simp only: a option.sel)
  next
    fix k assume "k \<in> dom (cmap w)"
    then obtain a where a: "cmap w k = Some a" by auto
    from lru_inv_lookup[OF inv a] a show "the (cmap w k) \<in> set as" by simp
  next
    fix a assume "a \<in> set as"
    with m have "cmap w (key (ents w a)) = Some a" by simp
    then show "\<exists>k\<in>dom (cmap w). a = the (cmap w k)" by force
  qed
  then show "bij_betw (\<lambda>k. the (cmap w k)) (dom (cmap w)) (set (order this w))"
    using o by simp
qed

section \<open>What a sweep pass does to the map\<close>

text \<open>
  Whatever struct a pass runs on, it deletes from the map exactly the keys it meets
  with an age above the expiration, each key being met once; and a pass that meets no
  such key changes nothing at all.
\<close>

lemma sweepPass_idle:
  assumes "list_all (\<lambda>kt. case cmap w (fst kt) of
                             Some e \<Rightarrow> snd kt - timestamp (ents w e) \<le> expiration this
                           | None \<Rightarrow> True) kts"
  shows "sweepPass this w kts = (this, w)"
  using assms
  by (induction kts) (auto simp: sweepPass_def sweepStep_def split: option.splits)

lemma sweepStep_frame:
  assumes "sweepStep kt (this, w) = (this', w')"
  shows "expiration this' = expiration this"
    and "timestamp (ents w' a) = timestamp (ents w a)"
    and "cmap w' k =
           (if k = fst kt \<and> (\<exists>e. cmap w k = Some e \<and>
                                 snd kt - timestamp (ents w e) > expiration this)
            then None else cmap w k)"
  using assms
  by (auto simp: sweepStep_def split: option.splits if_splits dest: evict_frame)

lemma sweepPass_index:
  assumes "sweepPass this w kts = (this', w')" and "distinct (map fst kts)"
  shows "cmap w' k =
           (if \<exists>t e. (k, t) \<in> set kts \<and> cmap w k = Some e \<and>
                       t - timestamp (ents w e) > expiration this
            then None else cmap w k)"
  using assms
proof (induction kts arbitrary: this w)
  case Nil
  then show ?case by (simp add: sweepPass_def)
next
  case (Cons kt kts)
  obtain t1 w1 where st: "sweepStep kt (this, w) = (t1, w1)" by (cases "sweepStep kt (this, w)")
  with Cons.prems have sp: "sweepPass t1 w1 kts = (this', w')" by (simp add: sweepPass_def)
  note fr = sweepStep_frame[OF st]
  from Cons.prems(2) have d: "distinct (map fst kts)" and nk: "fst kt \<notin> fst ` set kts" by auto
  note ih = Cons.IH[OF sp d]
  show ?case
  proof (cases "k = fst kt")
    case True
    have notin: "(k, t) \<notin> set kts" for t
    proof
      assume "(k, t) \<in> set kts"
      then have "fst (k, t) \<in> fst ` set kts" by (rule imageI)
      with True nk show False by simp
    qed
    then have "cmap w' k = cmap w1 k" using ih by simp
    also have "\<dots> = (if \<exists>e. cmap w k = Some e \<and> snd kt - timestamp (ents w e) > expiration this
                       then None else cmap w k)"
      using fr(3)[of k] True by simp
    finally show ?thesis using True notin
      by (cases kt) auto
  next
    case False
    then have "cmap w1 k = cmap w k" using fr(3)[of k] by simp
    with ih fr(1,2) False show ?thesis by (cases kt) auto
  qed
qed

section \<open>What holds when all operations are applied to one struct\<close>

text \<open>
  When every operation of a sequence, the sweep pass included, is applied to the same
  struct, the structure stays well-formed: the map is a bijection from its keys onto the
  entries of the list and both have the same size; from the constructed state the map
  never has more keys than a capacity of 0 or more; and the keys of the list are the
  specification's recency order of the touched keys, restricted to the keys still in
  the map.
\<close>

lemma exec_bijection:
  assumes "wellformed this w" and "exec (this, w) ops = Inr (this', w')"
  shows "wellformed this' w' \<and>
         bij_betw (\<lambda>k. the (cmap w' k)) (dom (cmap w')) (set (order this' w')) \<and>
         distinct (order this' w') \<and>
         (\<forall>a\<in>set (order this' w'). cmap w' (key (ents w' a)) = Some a) \<and>
         card (dom (cmap w')) = length (order this' w')"
proof -
  from exec_wellformed[OF assms] have "wellformed this' w'" by simp
  with wellformed_bij[OF this] show ?thesis by simp
qed

lemma exec_within_capacity:
  assumes "0 \<le> cap"
    and "exec (engine (Constructor cap ttl), mem (Constructor cap ttl)) ops = Inr (this', w')"
  shows "int (card (dom (cmap w'))) \<le> cap"
proof -
  have "int (card (dom (cmap (mem (Constructor cap ttl))))) \<le> capacity (engine (Constructor cap ttl))"
    using assms(1) by (simp add: Constructor_def Let_def)
  from exec_capacity[OF wellformed_Constructor this assms(2)]
  show ?thesis by (simp add: Constructor_def Let_def)
qed

lemma exec_order_is_recency:
  "(exec (engine (Constructor cap ttl), mem (Constructor cap ttl)) ops = Inr (this', w') \<longrightarrow>
      order_keys this' w' =
        filter (\<lambda>k. k \<in> dom (cmap w'))
          (recency (trace (engine (Constructor cap ttl), mem (Constructor cap ttl)) ops))) \<and>
   (wellformed this w \<and> apply_op (this, w) c = Inr (this1, w1) \<and> touched (this, w) c = [k] \<longrightarrow>
      cmap w1 k \<noteq> None \<and> head this1 = cmap w1 k \<and> hd (order_keys this1 w1) = k)"
proof -
  let ?t = "engine (Constructor cap ttl)" and ?w = "mem (Constructor cap ttl)"
  have A: "order_keys this' w' =
        filter (\<lambda>k. k \<in> dom (cmap w')) (recency (trace (?t, ?w) ops))"
    if ex: "exec (?t, ?w) ops = Inr (this', w')"
  proof -
    have 0: "order_keys ?t ?w = filter (\<lambda>x. x \<in> set (order_keys ?t ?w)) (recency [])"
      by (simp add: order_keys_Constructor)
    from exec_recency[OF wellformed_Constructor 0 ex]
    have "order_keys this' w' =
            filter (\<lambda>x. x \<in> set (order_keys this' w')) (recency (trace (?t, ?w) ops))" by simp
    moreover from exec_wellformed[OF wellformed_Constructor ex] have "wellformed this' w'" by simp
    ultimately show ?thesis using wellformed_keys(2) by simp
  qed
  have B: "cmap w1 k \<noteq> None \<and> head this1 = cmap w1 k \<and> hd (order_keys this1 w1) = k"
    if wf: "wellformed this w" and ap: "apply_op (this, w) c = Inr (this1, w1)"
      and t: "touched (this, w) c = [k]"
  proof -
    from apply_op_view[OF wf ap] t have wf1: "wellformed this1 w1"
      and "\<exists>rest. order_keys this1 w1 = k # rest" by auto
    then obtain rest where ok: "order_keys this1 w1 = k # rest" by auto
    from wf1 obtain as where inv: "lru_inv this1 w1 as" by (auto simp: wellformed_iff)
    from ok lru_inv_keys(1)[OF inv] obtain a as' where as: "as = a # as'"
      and kh: "key (ents w1 a) = k" by (cases as) auto
    from lru_inv_head[OF inv] as have h: "head this1 = Some a" by simp
    from inv as have "cmap w1 (key (ents w1 a)) = Some a" by (auto simp: lru_inv_iff)
    with kh h ok show ?thesis by simp
  qed
  from A B show ?thesis by blast
qed

section \<open>The claims\<close>

subsection \<open>Expiry on read\<close>

text \<open>
  Claim C1: if the age of an entry, computed from the timestamp it had before the
  \<^verbatim>\<open>Get\<close>, exceeds the expiration, then \<^verbatim>\<open>Get\<close> removes the entry from the map
  and from the list and returns a miss.

  \<^verbatim>\<open>Get\<close> assigns \<^verbatim>\<open>entry.timestamp = time.Now()\<close> on line 182 and only then
  tests \<^verbatim>\<open>time.Since(entry.timestamp) > this.expiration\<close> on line 183, so the test
  sees the time between the two readings of the clock and not the age of the entry.
  With an expiration of 5000, key 1 is set at 200 and read at 5500, at an age of 5300
  and before any sweep has met it expired (the pass at 5000 met it at 4800, the next
  one is due at 6000); both clock readings of the call are 5500. The call returns the
  stored value 10, the key stays in the map and in the list, nothing is evicted, and
  the timestamp is now 5500.
\<close>

theorem Get_checks_refreshed_timestamp:
  "case run (Constructor 1024 5000) [CallSet 1 10 200] of
     Inl err \<Rightarrow> False
   | Inr P \<Rightarrow>
       cmap (mem P) 1 = Some 0 \<and> timestamp (ents (mem P) 0) = 200 \<and>
       5500 - timestamp (ents (mem P) 0) > expiration (engine P) \<and>
       (case Get (engine P) (mem P) 5500 5500 1 of
          (r, this1, w1) \<Rightarrow>
            r = 10 \<and> cmap w1 1 = Some 0 \<and> order_keys this1 w1 = [1] \<and>
            timestamp (ents w1 0) = 5500 \<and> evlog w1 = [])"
  by (simp add: eval_defs)

text \<open>
  Claim C5: a hit refreshes recency and timestamp, so the expiration is an idle
  timeout: a key set at \<open>T0\<close> and read at \<open>T0 + ttl/2\<close> is a hit just before
  \<open>T0 + ttl/2 + ttl\<close> and a miss just after.

  The read at 2500 does refresh the timestamp, and the read at 7499 is a hit. The read
  at 7501, at an age of 5001 with an expiration of 5000 and before the pass due at
  8000, is a hit as well: it returns 10, keeps the key and moves the timestamp to 7501,
  for the reason given under C1.
\<close>

theorem Get_after_idle_ttl_still_hit:
  "case run (Constructor 1024 5000) [CallSet 1 10 0, CallGet 1 2500 2500] of
     Inl err \<Rightarrow> False
   | Inr P \<Rightarrow>
       timestamp (ents (mem P) 0) = 2500 \<and>
       fst (Get (engine P) (mem P) 7499 7499 1) = 10 \<and>
       7501 - timestamp (ents (mem P) 0) > expiration (engine P) \<and>
       (case Get (engine P) (mem P) 7501 7501 1 of
          (r, this1, w1) \<Rightarrow> r = 10 \<and> cmap w1 1 = Some 0 \<and> timestamp (ents w1 0) = 7501)"
  by (simp add: eval_defs)

subsection \<open>The sweep started by the constructor\<close>

text \<open>
  Claim C7: the constructor starts the sweep, and each pass evicts every entry whose
  age exceeds the expiration; after one pass no such entry remains in the structure.

  The pass runs on the constructor's variable, the handlers on the copy that the
  constructor returned. Key 1 is set at 200 and a pass meets it at 6000, at an age of
  5800 with an expiration of 5000. The pass deletes the key from the shared map and
  logs the eviction, and \<^verbatim>\<open>remove\<close> writes \<^verbatim>\<open>nil\<close> to \<^verbatim>\<open>head\<close> and \<^verbatim>\<open>tail\<close> of
  the constructor's struct. In the engine \<^verbatim>\<open>head\<close> and \<^verbatim>\<open>tail\<close> still point to the
  expired entry: it is the whole list of the engine, and an entry of no key of the
  map. A later \<^verbatim>\<open>Set\<close> of key 2 links the new entry in front of it. What a pass
  does to the map alone is as claimed (\<open>sweepPass_index\<close>).
\<close>

theorem sweep_leaves_expired_entry_in_engine:
  "case run (Constructor 1024 5000) [CallSet 1 10 200, SweepPass [(1, 6000)]] of
     Inl err \<Rightarrow> False
   | Inr P \<Rightarrow>
       dom (cmap (mem P)) = {} \<and> evlog (mem P) = [1] \<and>
       head (sweeper P) = None \<and> tail (sweeper P) = None \<and>
       head (engine P) = Some 0 \<and> tail (engine P) = Some 0 \<and>
       order_keys (engine P) (mem P) = [1] \<and>
       6000 - timestamp (ents (mem P) 0) > expiration (engine P) \<and>
       (case run P [CallSet 2 20 6500] of
          Inl err \<Rightarrow> False
        | Inr Q \<Rightarrow> dom (cmap (mem Q)) = {2} \<and> order_keys (engine Q) (mem Q) = [2, 1])"
  by (simp add: eval_defs)

text \<open>
  Claim C3: every operation (\<^verbatim>\<open>Get\<close>, \<^verbatim>\<open>Set\<close>, \<^verbatim>\<open>evict\<close>, a sweep pass) keeps
  the one-to-one correspondence of the keys of the map and the entries of the list,
  so the two have the same size after every completed operation.

  Applied to one struct the operations do keep it (\<open>exec_bijection\<close>). The sweep pass
  of the program works on the constructor's variable while the list belongs to the
  returned engine, as under C7. After key 1 is set at 200, swept at 6000 and key 2 is
  set at 6500, the map of the engine has the one key 2 and its list the two entries of
  keys 2 and 1; the entry of key 1 is in the list and in no slot of the map.
\<close>

theorem sweep_breaks_bijection_of_engine:
  "case run (Constructor 1024 5000)
          [CallSet 1 10 200, SweepPass [(1, 6000)], CallSet 2 20 6500] of
     Inl err \<Rightarrow> False
   | Inr P \<Rightarrow>
       dom (cmap (mem P)) = {2} \<and> cmap (mem P) 1 = None \<and>
       order (engine P) (mem P) = [1, 0] \<and> order_keys (engine P) (mem P) = [2, 1] \<and>
       card (dom (cmap (mem P))) = 1 \<and> length (order (engine P) (mem P)) = 2"
  by (simp add: eval_defs)

text \<open>
  Claim C2: after any completed operation of any sequence of \<^verbatim>\<open>Get\<close>, \<^verbatim>\<open>Set\<close> and
  sweep passes, the map has at most \<^verbatim>\<open>capacity\<close> keys, for every capacity fixed at
  construction, 0 included.

  Applied to one struct the operations keep the bound, for every capacity from 0 on
  (\<open>exec_within_capacity\<close>; with capacity 0 every \<^verbatim>\<open>Set\<close> panics, see C10). In the
  program, with capacity 1: key 1 is set at 200 and swept at 6000, which leaves
  \<^verbatim>\<open>tail\<close> of the engine on the evicted entry. Key 2 is set at 6500 into the empty
  map. At 6600 key 3 comes at capacity: line 204 evicts \<^verbatim>\<open>this.tail.key\<close>, which
  is key 1 and not in the map, so nothing is evicted (the log has the sweep's
  eviction only) and the map ends with the two keys 2 and 3.
\<close>

theorem sweep_breaks_capacity_of_engine:
  "case run (Constructor 1 5000)
          [CallSet 1 10 200, SweepPass [(1, 6000)], CallSet 2 20 6500, CallSet 3 30 6600] of
     Inl err \<Rightarrow> False
   | Inr P \<Rightarrow>
       capacity (engine P) = 1 \<and> dom (cmap (mem P)) = {2, 3} \<and>
       card (dom (cmap (mem P))) = 2 \<and> evlog (mem P) = [1] \<and>
       key (ents (mem P) (the (tail (engine P)))) = 1"
  by (auto simp: eval_defs)

text \<open>
  Claim C6: after any sequence of operations, the keys met on the way from
  \<^verbatim>\<open>head\<close> to \<^verbatim>\<open>tail\<close> are exactly the keys of the map, from the most recently
  touched to the least recently touched, a touch being a hit \<^verbatim>\<open>Get\<close> or any
  \<^verbatim>\<open>Set\<close>; in particular every hit and every \<^verbatim>\<open>Set\<close> moves its entry to the head.

  Applied to one struct the operations do that (\<open>exec_order_is_recency\<close>). In the
  program: keys 1 and 2 are set, key 1 is read, a pass at 6000 evicts both, and key 3 is
  set at 6500. The only key of the map is 3, and the way from \<^verbatim>\<open>head\<close> of the engine
  meets the keys 3, 1, 2: the new entry in front, as claimed, followed by the two
  evicted entries.
\<close>

theorem sweep_leaves_dead_keys_in_order:
  "case run (Constructor 1024 5000)
          [CallSet 1 10 200, CallSet 2 20 300, CallGet 1 400 400,
           SweepPass [(1, 6000), (2, 6000)], CallSet 3 30 6500] of
     Inl err \<Rightarrow> False
   | Inr P \<Rightarrow>
       dom (cmap (mem P)) = {3} \<and> evlog (mem P) = [1, 2] \<and>
       order_keys (engine P) (mem P) = [3, 1, 2]"
  by (simp add: eval_defs)

subsection \<open>Set at capacity\<close>





subsection \<open>Eviction of a key\<close>

text \<open>
  Claim C8: \<^verbatim>\<open>evict\<close> of a key that is not in the map changes nothing, neither the
  struct nor the map, the entries or the log; and evicting a key a second time changes
  nothing after the first time.
\<close>

theorem evict_idempotent:
  "(cmap w k = None \<longrightarrow> evict this w k = (this, w)) \<and>
   (case evict this w k of (this1, w1) \<Rightarrow> evict this1 w1 k = (this1, w1))"
  by (auto simp: evict_def Let_def split: option.splits prod.splits dest: remove_frame)

theorem evict_idempotent_witness:
  "\<exists>this w this1 w1.
     exec (engine (Constructor 2 5000), mem (Constructor 2 5000)) [OpSet 1 10 0, OpSet 2 20 100]
     = Inr (this, w) \<and>
     cmap w 3 = None \<and> evict this w 3 = (this, w) \<and>
     cmap w 1 \<noteq> None \<and> evict this w 1 = (this1, w1) \<and>
     order_keys this w = [2, 1] \<and> order_keys this1 w1 = [2] \<and> evlog w1 = [1] \<and>
     evict this1 w1 1 = (this1, w1)"
proof -
  let ?init = "(engine (Constructor 2 5000), mem (Constructor 2 5000))"
  let ?res = "projr (exec ?init [OpSet 1 10 0, OpSet 2 20 100])"
  let ?ev = "evict (fst ?res) (snd ?res) 1"
  have e: "exec ?init [OpSet 1 10 0, OpSet 2 20 100] = Inr (fst ?res, snd ?res)"
    by (simp add: eval_defs)
  have a: "cmap (snd ?res) 3 = None" "cmap (snd ?res) 1 \<noteq> None"
    "order_keys (fst ?res) (snd ?res) = [2, 1]"
    by (simp_all add: eval_defs)
  have b: "evict (fst ?res) (snd ?res) 1 = (fst ?ev, snd ?ev)" by simp
  have c: "order_keys (fst ?ev) (snd ?ev) = [2]" "evlog (snd ?ev) = [1]"
    by (simp_all add: eval_defs)
  from evict_idempotent[of "snd ?res" 3 "fst ?res"] a
  have 1: "evict (fst ?res) (snd ?res) 3 = (fst ?res, snd ?res)" by blast
  from evict_idempotent[of "snd ?res" 1 "fst ?res"] b
  have 2: "evict (fst ?ev) (snd ?ev) 1 = (fst ?ev, snd ?ev)" by (simp add: case_prod_beta)
  from e a b c 1 2 show ?thesis by blast
qed

subsection \<open>The value returned for a miss\<close>

text \<open>
  Claim C9: \<^verbatim>\<open>Get\<close> returns -1 for a miss, and also for a present, unexpired key
  whose stored value is -1, so the result -1 does not tell the two apart.

  Key 7 is set to -1 at 200 and read at 1000, with an expiration of 5000: the call
  returns -1, and it was a hit, since the key is still in the map and at the head of
  the list and nothing was evicted. The absent key 8 gives -1 in the same state.
\<close>

theorem minus_one_is_ambiguous:
  "case run (Constructor 1024 5000) [CallSet 7 (- 1) 200] of
     Inl err \<Rightarrow> False
   | Inr P \<Rightarrow>
       cmap (mem P) 7 = Some 0 \<and> val (ents (mem P) 0) = - 1 \<and>
       1000 - timestamp (ents (mem P) 0) \<le> expiration (engine P) \<and>
       (case Get (engine P) (mem P) 1000 1000 7 of
          (r, this1, w1) \<Rightarrow>
            r = - 1 \<and> cmap w1 7 = Some 0 \<and> order_keys this1 w1 = [7] \<and> evlog w1 = []) \<and>
       cmap (mem P) 8 = None \<and>
       fst (Get (engine P) (mem P) 1000 1000 8) = - 1"
  by (simp add: eval_defs)

end
